theory Spec2Isabelle
  imports Main "HOL-Library.Word"
begin

section \<open>The fixed-window rate limiter of fixed-window.go\<close>

subsection \<open>Data\<close>

text \<open>
  Go's \<^verbatim>\<open>uint64\<close> is a 64-bit word. \<^verbatim>\<open>time.Duration\<close> is an \<^verbatim>\<open>int64\<close> count of
  nanoseconds: the same 64 bits, read as two's complement by \<open>sint\<close>. Converting a
  \<^verbatim>\<open>uint64\<close> to \<^verbatim>\<open>time.Duration\<close> keeps the bits, and the product of two durations wraps.
\<close>

type_synonym uint64 = "64 word"
type_synonym time_Duration = "64 word"

definition Second :: time_Duration where
  "Second = 1000000000"

definition Minute :: time_Duration where
  "Minute = 60 * Second"

definition Hour :: time_Duration where
  "Hour = 60 * Minute"

text \<open>
  An \<^verbatim>\<open>error\<close> made by \<^verbatim>\<open>fmt.Errorf\<close> is its message. A panic is a value of its own:
  calling a method through a nil pointer (\<^verbatim>\<open>fw.mu.Lock()\<close>, \<^verbatim>\<open>fw.ticker.Stop()\<close>), the
  \<^verbatim>\<open>default\<close> branch of \<^verbatim>\<open>duration\<close> (with its message), and \<^verbatim>\<open>time.NewTicker\<close> called
  with a duration that is not positive.
\<close>

type_synonym error = string

datatype panic =
    NilPointerDereference
  | UnsupportedTimeUnit string
  | NonPositiveInterval

text \<open>
  A \<^verbatim>\<open>*time.Ticker\<close> and a \<^verbatim>\<open>*sync.RWMutex\<close> are pointers: \<open>None\<close> is nil, \<open>Some a\<close> the
  address of an allocated object. The fields keep the names of the struct.
\<close>

record Ticker =
  period :: time_Duration
  stopped :: bool

record FixedWindow =
  Duration :: uint64
  Unit :: string
  Limit :: uint64
  counter :: uint64
  ticker :: "nat option"
  stop :: bool
  mu :: "nat option"

text \<open>
  A goroutine running \<^verbatim>\<open>fw.reset()\<close> is at the head of its loop (about to test
  \<^verbatim>\<open>!fw.stop\<close>), blocked receiving from the channel of the ticker at an address, has
  returned, or has panicked.
\<close>

datatype resetter = LoopHead | Receiving nat | Exited | Crashed

text \<open>
  The program state around one limiter: the struct itself, the tickers allocated so far
  (the address of a ticker is its index), the number of mutexes allocated so far (the
  address of a mutex is its index) and the goroutines started by \<^verbatim>\<open>go fw.reset()\<close>.
\<close>

record runtime =
  fw :: FixedWindow
  tickers :: "Ticker list"
  mutexes :: nat
  resetters :: "resetter list"

text \<open>
  The composite literal \<^verbatim>\<open>FixedWindow{Duration: d, Unit: u, Limit: l}\<close> in a program that has
  allocated nothing yet: the unexported fields have their zero values.
\<close>

definition New :: "uint64 \<Rightarrow> string \<Rightarrow> uint64 \<Rightarrow> runtime" where
  "New d u l =
     \<lparr>fw = \<lparr>Duration = d, Unit = u, Limit = l, counter = 0, ticker = None,
             stop = False, mu = None\<rparr>,
      tickers = [], mutexes = 0, resetters = []\<rparr>"

subsection \<open>Accept and Counter\<close>

text \<open>
  \<^verbatim>\<open>fw.mu.Lock()\<close> panics when \<^verbatim>\<open>fw.mu\<close> is nil, before anything is read. Otherwise the
  body runs between \<^verbatim>\<open>Lock\<close> and the deferred \<^verbatim>\<open>Unlock\<close>; \<^verbatim>\<open>fw.counter++\<close> is the
  wrapping increment of a \<^verbatim>\<open>uint64\<close>.
\<close>

definition Accept :: "FixedWindow \<Rightarrow> (panic + bool) \<times> FixedWindow" where
  "Accept f =
     (case mu f of
        None \<Rightarrow> (Inl NilPointerDereference, f)
      | Some m \<Rightarrow>
          (let accepted = (\<not> stop f \<and> counter f \<noteq> Limit f)
           in if accepted then (Inr accepted, f\<lparr>counter := counter f + 1\<rparr>)
              else (Inr accepted, f)))"

definition Counter :: "FixedWindow \<Rightarrow> uint64" where
  "Counter f = counter f"

subsection \<open>Validate\<close>

definition err_duration :: error where
  "err_duration = ''duration must be greater than zero''"

definition err_limit :: error where
  "err_limit = ''limit must be greater than zero''"

text \<open>The format \<^verbatim>\<open>"expected one of them: 'second', 'minute', 'hour' but got '%s'"\<close>.\<close>

definition err_unit :: "string \<Rightarrow> error" where
  "err_unit u =
     ''expected one of them: 'second', 'minute', 'hour' but got '' @ [CHR 0x27] @ u @ [CHR 0x27]"

definition Validate :: "FixedWindow \<Rightarrow> error option" where
  "Validate f =
     (if Duration f = 0 then Some err_duration
      else if Limit f = 0 then Some err_limit
      else if Unit f \<noteq> ''second'' \<and> Unit f \<noteq> ''minute'' \<and> Unit f \<noteq> ''hour''
        then Some (err_unit (Unit f))
      else None)"

subsection \<open>duration, Do, Stop and the resetter\<close>

text \<open>The format \<^verbatim>\<open>"Unsupported time unit '%s'"\<close> of the panic in \<^verbatim>\<open>duration\<close>.\<close>

definition unsupported_unit :: "string \<Rightarrow> string" where
  "unsupported_unit u = ''Unsupported time unit '' @ [CHR 0x27] @ u @ [CHR 0x27]"

definition duration :: "FixedWindow \<Rightarrow> panic + time_Duration" where
  "duration f =
     (if Unit f = ''second'' then Inr (Duration f * Second)
      else if Unit f = ''minute'' then Inr (Duration f * Minute)
      else if Unit f = ''hour'' then Inr (Duration f * Hour)
      else Inl (UnsupportedTimeUnit (unsupported_unit (Unit f))))"

text \<open>
  \<^verbatim>\<open>time.NewTicker(d)\<close> panics unless \<^verbatim>\<open>d > 0\<close>; otherwise it allocates a running ticker of
  period \<^verbatim>\<open>d\<close>.
\<close>

definition NewTicker :: "time_Duration \<Rightarrow> Ticker list \<Rightarrow> panic + nat \<times> Ticker list" where
  "NewTicker d h =
     (if sint d \<le> 0 then Inl NonPositiveInterval
      else Inr (length h, h @ [\<lparr>period = d, stopped = False\<rparr>]))"

text \<open>
  \<^verbatim>\<open>Do\<close> returns the error of \<^verbatim>\<open>Validate\<close>, or nil (\<open>None\<close>). A panic leaves the state as
  it was when it was raised: the mutex is assigned before the ticker is made.
\<close>

definition Do :: "runtime \<Rightarrow> (panic + error option) \<times> runtime" where
  "Do rt =
     (case Validate (fw rt) of
        Some err \<Rightarrow> (Inr (Some err), rt)
      | None \<Rightarrow>
          (let rt1 = rt\<lparr>fw := (fw rt)\<lparr>mu := Some (mutexes rt)\<rparr>, mutexes := Suc (mutexes rt)\<rparr>
           in case duration (fw rt1) of
                Inl p \<Rightarrow> (Inl p, rt1)
              | Inr d \<Rightarrow>
                  (case NewTicker d (tickers rt1) of
                     Inl p \<Rightarrow> (Inl p, rt1)
                   | Inr (t, h) \<Rightarrow>
                       (Inr None,
                        rt1\<lparr>fw := (fw rt1)\<lparr>ticker := Some t\<rparr>, tickers := h,
                            resetters := resetters rt1 @ [LoopHead]\<rparr>))))"

text \<open>
  \<^verbatim>\<open>Stop\<close> writes \<^verbatim>\<open>fw.stop\<close> first; \<^verbatim>\<open>fw.ticker.Stop()\<close> then panics on a nil ticker and
  otherwise turns the ticker off (turning off a stopped ticker changes nothing).
\<close>

definition Stop :: "runtime \<Rightarrow> (panic + unit) \<times> runtime" where
  "Stop rt =
     (let rt1 = rt\<lparr>fw := (fw rt)\<lparr>stop := True\<rparr>\<rparr>
      in case ticker (fw rt1) of
           None \<Rightarrow> (Inl NilPointerDereference, rt1)
         | Some t \<Rightarrow>
             (Inr (),
              rt1\<lparr>tickers :=
                    (if t < length (tickers rt1)
                     then (tickers rt1)[t := (tickers rt1 ! t)\<lparr>stopped := True\<rparr>]
                     else tickers rt1)\<rparr>))"

text \<open>
  The loop of \<^verbatim>\<open>reset\<close>, one goroutine at a time. At the loop head goroutine \<open>i\<close> tests
  \<^verbatim>\<open>!fw.stop\<close>: it returns when the flag is set, and otherwise evaluates
  \<^verbatim>\<open>fw.ticker.C\<close> (a panic on a nil ticker) and blocks on that channel. A firing is the
  receipt of a tick followed by \<^verbatim>\<open>fw.counter = 0\<close>, which brings the goroutine back to the
  loop head. A tick sent before the ticker was stopped may still be delivered, so a
  firing does not ask for the ticker to be running.
\<close>

definition reset_check :: "nat \<Rightarrow> runtime \<Rightarrow> runtime" where
  "reset_check i rt =
     (if i < length (resetters rt) \<and> resetters rt ! i = LoopHead then
        (if stop (fw rt) then rt\<lparr>resetters := (resetters rt)[i := Exited]\<rparr>
         else case ticker (fw rt) of
                None \<Rightarrow> rt\<lparr>resetters := (resetters rt)[i := Crashed]\<rparr>
              | Some t \<Rightarrow> rt\<lparr>resetters := (resetters rt)[i := Receiving t]\<rparr>)
      else rt)"

definition receiving :: "resetter \<Rightarrow> bool" where
  "receiving r = (case r of Receiving t \<Rightarrow> True | _ \<Rightarrow> False)"

definition reset_fire :: "nat \<Rightarrow> runtime \<Rightarrow> runtime" where
  "reset_fire i rt =
     (if i < length (resetters rt) \<and> receiving (resetters rt ! i) then
        rt\<lparr>fw := (fw rt)\<lparr>counter := 0\<rparr>, resetters := (resetters rt)[i := LoopHead]\<rparr>
      else rt)"

subsection \<open>Runs\<close>

text \<open>
  A run is a sequence of calls by the client and of steps of the resetter goroutines. A
  call that panics leaves the state the panic left; a step of a goroutine that is not in
  the right place does nothing.
\<close>

datatype event =
    CallAccept
  | CallCounter
  | CallStop
  | CallDo
  | ResetCheck nat
  | ResetFire nat

fun exec :: "event \<Rightarrow> runtime \<Rightarrow> runtime" where
  "exec CallAccept rt = rt\<lparr>fw := snd (Accept (fw rt))\<rparr>"
| "exec CallCounter rt = rt"
| "exec CallStop rt = snd (Stop rt)"
| "exec CallDo rt = snd (Do rt)"
| "exec (ResetCheck i) rt = reset_check i rt"
| "exec (ResetFire i) rt = reset_fire i rt"

fun run :: "event list \<Rightarrow> runtime \<Rightarrow> runtime" where
  "run [] rt = rt"
| "run (e # es) rt = run es (exec e rt)"

text \<open>\<open>n\<close> calls of \<^verbatim>\<open>Accept\<close> in a row: the results in order, and the final struct.\<close>

fun Accepts :: "nat \<Rightarrow> FixedWindow \<Rightarrow> (panic + bool) list \<times> FixedWindow" where
  "Accepts 0 f = ([], f)"
| "Accepts (Suc n) f =
     (case Accept f of (r, f') \<Rightarrow> (case Accepts n f' of (rs, f'') \<Rightarrow> (r # rs, f'')))"

subsection \<open>Interleaved execution\<close>

text \<open>
  For concurrent callers the methods are cut at their accesses to the shared struct. A
  thread is a call of \<^verbatim>\<open>Accept\<close>, \<^verbatim>\<open>Counter\<close> or \<^verbatim>\<open>Stop\<close>, or the goroutine of \<^verbatim>\<open>reset\<close>,
  and its state says where in the method it stands:
  \<^item> \<open>AcLock\<close>: in \<^verbatim>\<open>Accept\<close>, before \<^verbatim>\<open>fw.mu.Lock()\<close>;
  \<^item> \<open>AcTest\<close>: holding the mutex, before \<^verbatim>\<open>accepted = !fw.stop && fw.counter != fw.Limit\<close>;
  \<^item> \<open>AcLoad\<close>: accepted, before \<^verbatim>\<open>fw.counter++\<close> reads the counter;
  \<^item> \<open>AcStore v\<close>: having read \<open>v\<close>, before \<^verbatim>\<open>fw.counter++\<close> writes \<open>v + 1\<close>;
  \<^item> \<open>AcUnlock b\<close>: before the deferred \<^verbatim>\<open>fw.mu.Unlock()\<close>, with the result \<open>b\<close>;
  \<^item> \<open>AcDone b\<close>: returned \<open>b\<close>;
  \<^item> \<open>CtRead\<close>, \<open>CtDone v\<close>: in \<^verbatim>\<open>Counter\<close>, before \<^verbatim>\<open>return fw.counter\<close>, and returned \<open>v\<close>;
  \<^item> \<open>StFlag\<close>, \<open>StTicker\<close>, \<open>StDone\<close>: in \<^verbatim>\<open>Stop\<close>, before \<^verbatim>\<open>fw.stop = true\<close>, before
    \<^verbatim>\<open>fw.ticker.Stop()\<close>, and returned;
  \<^item> \<open>RsTest\<close>, \<open>RsRecv\<close>, \<open>RsZero\<close>, \<open>RsDone\<close>: in \<^verbatim>\<open>reset\<close>, before the loop test
    \<^verbatim>\<open>!fw.stop\<close>, blocked in \<^verbatim>\<open><-fw.ticker.C\<close>, before \<^verbatim>\<open>fw.counter = 0\<close>, and returned;
  \<^item> \<open>Panicked\<close>: stopped by a nil pointer dereference.
\<close>

datatype thread =
    AcLock
  | AcTest
  | AcLoad
  | AcStore uint64
  | AcUnlock bool
  | AcDone bool
  | CtRead
  | CtDone uint64
  | StFlag
  | StTicker
  | StDone
  | RsTest
  | RsRecv
  | RsZero
  | RsDone
  | Panicked

text \<open>
  The shared state is the struct and the holder of the mutex that \<^verbatim>\<open>fw.mu\<close> points to
  (the index of the thread that holds it). \<^verbatim>\<open>Lock\<close> can be taken only while no thread holds
  the mutex; no other step asks who holds it, because only \<^verbatim>\<open>Accept\<close> calls \<^verbatim>\<open>Lock\<close>.
  \<open>thread_step i t f h\<close> is the next step of thread \<open>i\<close> in state \<open>t\<close>: the new state of
  the thread, the struct and the holder, or \<open>None\<close> when the thread is blocked or has
  finished.
\<close>

record conc =
  mem :: FixedWindow
  holder :: "nat option"
  threads :: "thread list"

fun thread_step ::
  "nat \<Rightarrow> thread \<Rightarrow> FixedWindow \<Rightarrow> nat option \<Rightarrow> (thread \<times> FixedWindow \<times> nat option) option"
where
  "thread_step i AcLock f h =
     (case mu f of
        None \<Rightarrow> Some (Panicked, f, h)
      | Some m \<Rightarrow> (if h = None then Some (AcTest, f, Some i) else None))"
| "thread_step i AcTest f h =
     Some (if \<not> stop f \<and> counter f \<noteq> Limit f then AcLoad else AcUnlock False, f, h)"
| "thread_step i AcLoad f h = Some (AcStore (counter f), f, h)"
| "thread_step i (AcStore v) f h = Some (AcUnlock True, f\<lparr>counter := v + 1\<rparr>, h)"
| "thread_step i (AcUnlock b) f h = Some (AcDone b, f, None)"
| "thread_step i (AcDone b) f h = None"
| "thread_step i CtRead f h = Some (CtDone (counter f), f, h)"
| "thread_step i (CtDone v) f h = None"
| "thread_step i StFlag f h = Some (StTicker, f\<lparr>stop := True\<rparr>, h)"
| "thread_step i StTicker f h =
     Some (case ticker f of None \<Rightarrow> Panicked | Some t \<Rightarrow> StDone, f, h)"
| "thread_step i StDone f h = None"
| "thread_step i RsTest f h =
     Some (if stop f then RsDone
           else (case ticker f of None \<Rightarrow> Panicked | Some t \<Rightarrow> RsRecv), f, h)"
| "thread_step i RsRecv f h = Some (RsZero, f, h)"
| "thread_step i RsZero f h = Some (RsTest, f\<lparr>counter := 0\<rparr>, h)"
| "thread_step i RsDone f h = None"
| "thread_step i Panicked f h = None"

definition cstep :: "nat \<Rightarrow> conc \<Rightarrow> conc option" where
  "cstep i c =
     (if i < length (threads c) then
        (case thread_step i (threads c ! i) (mem c) (holder c) of
           None \<Rightarrow> None
         | Some (t, f, h) \<Rightarrow> Some \<lparr>mem = f, holder = h, threads = (threads c)[i := t]\<rparr>)
      else None)"

text \<open>
  A schedule names the thread that takes each step; it is \<open>None\<close> when it asks a blocked
  or finished thread to move.
\<close>

fun sched :: "nat list \<Rightarrow> conc \<Rightarrow> conc option" where
  "sched [] c = Some c"
| "sched (i # is) c = (case cstep i c of None \<Rightarrow> None | Some c' \<Rightarrow> sched is c')"

definition spawn :: "FixedWindow \<Rightarrow> thread list \<Rightarrow> conc" where
  "spawn f ts = \<lparr>mem = f, holder = None, threads = ts\<rparr>"

text \<open>
  Predicates on threads for the invariants below: inside the critical section of
  \<^verbatim>\<open>Accept\<close>; somewhere in \<^verbatim>\<open>Accept\<close>; at the entry of a method; having added one to the
  counter (\<open>credit\<close>); having been refused.
\<close>

fun in_cs :: "thread \<Rightarrow> bool" where
  "in_cs AcTest = True"
| "in_cs AcLoad = True"
| "in_cs (AcStore v) = True"
| "in_cs (AcUnlock b) = True"
| "in_cs t = False"

fun accepting :: "thread \<Rightarrow> bool" where
  "accepting AcLock = True"
| "accepting (AcDone b) = True"
| "accepting t = in_cs t"

fun entry :: "thread \<Rightarrow> bool" where
  "entry AcLock = True"
| "entry CtRead = True"
| "entry StFlag = True"
| "entry RsTest = True"
| "entry t = False"

fun credit :: "thread \<Rightarrow> nat" where
  "credit (AcUnlock b) = (if b then 1 else 0)"
| "credit (AcDone b) = (if b then 1 else 0)"
| "credit t = 0"

fun refused :: "thread \<Rightarrow> bool" where
  "refused (AcUnlock b) = (\<not> b)"
| "refused (AcDone b) = (\<not> b)"
| "refused t = False"

text \<open>
  While only callers of \<^verbatim>\<open>Accept\<close> run on a started limiter: the counter is the number of
  callers that have added one, it is within the limit, a caller that has decided to
  accept sees a counter below the limit, a caller is refused only at the limit, and the
  holder of the mutex is the one caller inside the critical section.
\<close>

fun fits :: "FixedWindow \<Rightarrow> thread \<Rightarrow> bool" where
  "fits f AcLoad = (counter f \<noteq> Limit f)"
| "fits f (AcStore v) = (v = counter f \<and> counter f \<noteq> Limit f)"
| "fits f t = (refused t \<longrightarrow> counter f = Limit f)"

definition accept_inv :: "conc \<Rightarrow> bool" where
  "accept_inv c =
     ((\<exists>m. mu (mem c) = Some m) \<and> \<not> stop (mem c) \<and> counter (mem c) \<le> Limit (mem c)
      \<and> (\<forall>j < length (threads c). accepting (threads c ! j) \<and> fits (mem c) (threads c ! j)
            \<and> (in_cs (threads c ! j) \<longleftrightarrow> holder c = Some j))
      \<and> unat (counter (mem c)) = sum_list (map credit (threads c)))"

text \<open>
  With every kind of thread running: the counter is within the limit, and so is the value
  that a caller of \<^verbatim>\<open>Accept\<close> is about to write.
\<close>

fun bounded :: "FixedWindow \<Rightarrow> thread \<Rightarrow> bool" where
  "bounded f AcLoad = (counter f < Limit f)"
| "bounded f (AcStore v) = (v < Limit f)"
| "bounded f t = True"

definition race_inv :: "conc \<Rightarrow> bool" where
  "race_inv c =
     (counter (mem c) \<le> Limit (mem c)
      \<and> (\<forall>j < length (threads c). bounded (mem c) (threads c ! j)
            \<and> (in_cs (threads c ! j) \<longleftrightarrow> holder c = Some j)))"

text \<open>
  The limiter of the README after its call of \<^verbatim>\<open>Do\<close>:
  \<^verbatim>\<open>rl := ratelimit.FixedWindow{Duration: 5, Unit: "second", Limit: 2}; rl.Do()\<close>.
\<close>

definition readme_limiter :: runtime where
  "readme_limiter = snd (Do (New 5 ''second'' 2))"

section \<open>Validation\<close>

lemma err_duration_neq_limit: "err_duration \<noteq> err_limit"
  by (simp add: err_duration_def err_limit_def)

lemma err_duration_neq_unit: "err_duration \<noteq> err_unit u"
  by (simp add: err_duration_def err_unit_def)

lemma err_limit_neq_unit: "err_limit \<noteq> err_unit u"
  by (simp add: err_limit_def err_unit_def)

text \<open>
  C3. \<^verbatim>\<open>Validate\<close> depends on the three configuration fields only. It returns an error
  exactly when the duration is 0, the limit is 0 or the unit is none of "second", "minute"
  and "hour". The duration error is returned for a zero duration, the limit error for a
  positive duration with a zero limit and the unit error otherwise; the unit error's
  message contains the offending unit, the three messages are pairwise different whatever
  the unit, and the configuration (5, "second", 2) is accepted.
\<close>

theorem Validate_cases:
  "Validate f = Validate (fw (New (Duration f) (Unit f) (Limit f)))
   \<and> (Validate f \<noteq> None) =
       (Duration f = 0 \<or> Limit f = 0 \<or> Unit f \<notin> {''second'', ''minute'', ''hour''})
   \<and> (Duration f = 0 \<longrightarrow> Validate f = Some err_duration)
   \<and> (Duration f \<noteq> 0 \<and> Limit f = 0 \<longrightarrow> Validate f = Some err_limit)
   \<and> (Duration f \<noteq> 0 \<and> Limit f \<noteq> 0 \<and> Unit f \<notin> {''second'', ''minute'', ''hour''} \<longrightarrow>
        Validate f = Some (err_unit (Unit f))
        \<and> (\<exists>p s. err_unit (Unit f) = p @ Unit f @ s))
   \<and> err_duration \<noteq> err_limit
   \<and> (\<forall>u. err_duration \<noteq> err_unit u \<and> err_limit \<noteq> err_unit u)
   \<and> Validate (fw (New 5 ''second'' 2)) = None"
proof -
  have pure: "Validate f = Validate (fw (New (Duration f) (Unit f) (Limit f)))"
    by (simp add: Validate_def New_def)
  have iff: "(Validate f \<noteq> None) =
       (Duration f = 0 \<or> Limit f = 0 \<or> Unit f \<notin> {''second'', ''minute'', ''hour''})"
    by (simp add: Validate_def)
  have contains: "\<exists>p s. err_unit (Unit f) = p @ Unit f @ s"
    unfolding err_unit_def by (rule exI, rule exI, rule append_assoc [symmetric])
  have ok: "Validate (fw (New 5 ''second'' 2)) = None"
    by (simp add: Validate_def New_def)
  show ?thesis
    using pure iff contains ok err_duration_neq_limit err_duration_neq_unit err_limit_neq_unit
    by (simp add: Validate_def)
qed

theorem Validate_cases_witness:
  "Validate (fw (New 0 ''second'' 2)) = Some err_duration
   \<and> Validate (fw (New 5 ''second'' 0)) = Some err_limit
   \<and> Validate (fw (New 5 ''day'' 2)) = Some (err_unit ''day'')
   \<and> Validate (fw (New 5 ''second'' 2)) = None"
  using Validate_cases [of "fw (New 0 ''second'' 2)"]
    Validate_cases [of "fw (New 5 ''second'' 0)"]
    Validate_cases [of "fw (New 5 ''day'' 2)"]
  by (simp add: New_def)

text \<open>
  C4. When \<^verbatim>\<open>Validate\<close> fails, \<^verbatim>\<open>Do\<close> returns that error and the whole state is the one it
  was called in: the counter, the stop flag, the mutex and the ticker of the struct, the
  allocated tickers and mutexes, and the resetter goroutines.
\<close>

theorem Do_invalid_unchanged:
  "Validate (fw rt) = Some err \<Longrightarrow> Do rt = (Inr (Some err), rt)"
  by (simp add: Do_def)

theorem Do_invalid_unchanged_witness:
  "Validate (fw (New 0 ''second'' 2)) = Some err_duration
   \<and> Do (New 0 ''second'' 2) = (Inr (Some err_duration), New 0 ''second'' 2)"
proof -
  have v: "Validate (fw (New 0 ''second'' 2)) = Some err_duration"
    by (simp add: Validate_def New_def)
  show ?thesis using v Do_invalid_unchanged [OF v] by simp
qed

text \<open>
  C8. On a configuration that \<^verbatim>\<open>Validate\<close> accepts, \<^verbatim>\<open>duration\<close> returns a value: its
  \<^verbatim>\<open>default\<close> branch is not reached. Whenever \<^verbatim>\<open>duration\<close> panics, the panic is the one for
  an unsupported unit, the unit is none of the three and \<^verbatim>\<open>Validate\<close> rejects the
  configuration. \<^verbatim>\<open>Do\<close>, which validates first, never panics for an unsupported unit.
\<close>

theorem duration_no_panic:
  "(Validate f = None \<longrightarrow> (\<exists>d. duration f = Inr d))
   \<and> (\<forall>p. duration f = Inl p \<longrightarrow>
         p = UnsupportedTimeUnit (unsupported_unit (Unit f))
         \<and> Unit f \<notin> {''second'', ''minute'', ''hour''}
         \<and> Validate f \<noteq> None)
   \<and> (\<forall>rt s. fst (Do rt) \<noteq> Inl (UnsupportedTimeUnit s))"
proof -
  have "fst (Do rt) \<noteq> Inl (UnsupportedTimeUnit s)" for rt s
    by (auto simp: Do_def Validate_def duration_def NewTicker_def Let_def
          split: option.splits sum.splits prod.splits if_splits)
  then show ?thesis
    by (auto simp: Validate_def duration_def split: if_splits)
qed

theorem duration_no_panic_witness:
  "Validate (fw (New 5 ''second'' 2)) = None
   \<and> (\<exists>d. duration (fw (New 5 ''second'' 2)) = Inr d)"
proof -
  have v: "Validate (fw (New 5 ''second'' 2)) = None"
    by (simp add: Validate_def New_def)
  show ?thesis using v duration_no_panic [of "fw (New 5 ''second'' 2)"] by simp
qed

section \<open>Admission\<close>

subsection \<open>What the calls and the resetter leave unchanged\<close>

lemma Accept_mu: "mu (snd (Accept f)) = mu f"
  by (simp add: Accept_def Let_def split: option.splits)

lemma Accept_stop: "stop (snd (Accept f)) = stop f"
  by (simp add: Accept_def Let_def split: option.splits)

lemma Accept_Limit: "Limit (snd (Accept f)) = Limit f"
  by (simp add: Accept_def Let_def split: option.splits)

lemma Accept_config:
  "Duration (snd (Accept f)) = Duration f \<and> Unit (snd (Accept f)) = Unit f"
  by (simp add: Accept_def Let_def split: option.splits)

lemma word_inc_le: "(c :: uint64) \<le> l \<Longrightarrow> c \<noteq> l \<Longrightarrow> c + 1 \<le> l"
  by (simp add: inc_le)

lemma word_inc_unat:
  fixes c l :: uint64
  assumes "c \<le> l" and "c \<noteq> l"
  shows "unat (c + 1) = Suc (unat c)"
proof -
  have "1 + c \<noteq> 0"
  proof
    assume "1 + c = 0"
    then have "c = - 1"
      by (simp add: eq_neg_iff_add_eq_0 add.commute)
    then have "l \<le> c"
      by simp
    with assms show False
      by simp
  qed
  then have "unat (1 + c) = Suc (unat c)"
    by (rule unatSuc)
  then show ?thesis
    by (simp add: add.commute)
qed

lemma Accept_counter_le:
  "counter f \<le> Limit f \<Longrightarrow> counter (snd (Accept f)) \<le> Limit f"
  by (simp add: Accept_def Let_def word_inc_le split: option.splits)

lemma exec_stop: "stop (fw rt) \<Longrightarrow> stop (fw (exec e rt))"
  by (cases e)
     (auto simp: Accept_stop Stop_def Do_def Let_def reset_check_def reset_fire_def
           split: option.splits sum.splits prod.splits)

lemma exec_mu: "mu (fw rt) = Some m \<Longrightarrow> \<exists>m'. mu (fw (exec e rt)) = Some m'"
  by (cases e)
     (auto simp: Accept_mu Stop_def Do_def Let_def reset_check_def reset_fire_def
           split: option.splits sum.splits prod.splits)

lemma exec_config:
  "Duration (fw (exec e rt)) = Duration (fw rt) \<and> Unit (fw (exec e rt)) = Unit (fw rt)
   \<and> Limit (fw (exec e rt)) = Limit (fw rt)"
  by (cases e)
     (auto simp: Accept_config Accept_Limit Stop_def Do_def Let_def reset_check_def
                 reset_fire_def
           split: option.splits sum.splits prod.splits)

lemma exec_counter_le:
  "counter (fw rt) \<le> Limit (fw rt) \<Longrightarrow> counter (fw (exec e rt)) \<le> Limit (fw rt)"
  by (cases e)
     (auto simp: Accept_counter_le Stop_def Do_def Let_def reset_check_def reset_fire_def
           split: option.splits sum.splits prod.splits)

lemma run_stop: "stop (fw rt) \<Longrightarrow> stop (fw (run es rt))"
  by (induction es arbitrary: rt) (simp_all add: exec_stop)

lemma run_mu: "mu (fw rt) = Some m \<Longrightarrow> \<exists>m'. mu (fw (run es rt)) = Some m'"
proof (induction es arbitrary: rt m)
  case Nil
  then show ?case by simp
next
  case (Cons e es)
  from exec_mu [OF Cons.prems] obtain m' where "mu (fw (exec e rt)) = Some m'" ..
  then show ?case
    using Cons.IH by simp
qed

lemma run_config:
  "Duration (fw (run es rt)) = Duration (fw rt) \<and> Unit (fw (run es rt)) = Unit (fw rt)
   \<and> Limit (fw (run es rt)) = Limit (fw rt)"
  by (induction es arbitrary: rt) (simp_all add: exec_config)

lemma run_counter_le:
  "counter (fw rt) \<le> Limit (fw rt) \<Longrightarrow> counter (fw (run es rt)) \<le> Limit (fw rt)"
proof (induction es arbitrary: rt)
  case Nil
  then show ?case by simp
next
  case (Cons e es)
  have "counter (fw (exec e rt)) \<le> Limit (fw (exec e rt))"
    using Cons.prems by (simp add: exec_counter_le exec_config)
  then have "counter (fw (run es (exec e rt))) \<le> Limit (fw (exec e rt))"
    by (rule Cons.IH)
  then show ?case by (simp add: exec_config)
qed

lemma Stop_sets_stop: "stop (fw (snd (Stop rt)))"
  by (simp add: Stop_def Let_def split: option.splits)

lemma Stop_mu: "mu (fw (snd (Stop rt))) = mu (fw rt)"
  by (simp add: Stop_def Let_def split: option.splits)

subsection \<open>The README's limiter\<close>

lemma Do_readme:
  "Do (New 5 ''second'' 2) =
     (Inr None,
      \<lparr>fw = \<lparr>Duration = 5, Unit = ''second'', Limit = 2, counter = 0, ticker = Some 0,
              stop = False, mu = Some 0\<rparr>,
       tickers = [\<lparr>period = 5000000000, stopped = False\<rparr>], mutexes = 1,
       resetters = [LoopHead]\<rparr>)"
  by (simp add: Do_def New_def Validate_def duration_def NewTicker_def Second_def)

lemma readme_limiter_eq:
  "readme_limiter =
      \<lparr>fw = \<lparr>Duration = 5, Unit = ''second'', Limit = 2, counter = 0, ticker = Some 0,
              stop = False, mu = Some 0\<rparr>,
       tickers = [\<lparr>period = 5000000000, stopped = False\<rparr>], mutexes = 1,
       resetters = [LoopHead]\<rparr>"
  by (simp add: readme_limiter_def Do_readme)

subsection \<open>Accept\<close>

text \<open>
  C1, as the code has it. The struct has no flag that says "running": it has \<^verbatim>\<open>stop\<close>, and
  it has the mutex that only \<^verbatim>\<open>Do\<close> creates. On a limiter whose mutex is set, one call of
  \<^verbatim>\<open>Accept\<close> returns false and leaves the struct as it is when \<^verbatim>\<open>stop\<close> is set or the
  counter equals the limit; otherwise it returns true and adds one to the counter (one
  more as a number too, when the counter is within the limit). After a call of \<^verbatim>\<open>Stop\<close>,
  whatever calls and resetter steps follow, \<^verbatim>\<open>Accept\<close> returns false and changes nothing.
\<close>

theorem Accept_started:
  "mu (fw rt) = Some m \<Longrightarrow>
     Accept (fw rt) =
       (if stop (fw rt) \<or> counter (fw rt) = Limit (fw rt) then (Inr False, fw rt)
        else (Inr True, (fw rt)\<lparr>counter := counter (fw rt) + 1\<rparr>))
     \<and> (\<not> stop (fw rt) \<and> counter (fw rt) \<noteq> Limit (fw rt) \<and> counter (fw rt) \<le> Limit (fw rt) \<longrightarrow>
          unat (counter (snd (Accept (fw rt)))) = unat (counter (fw rt)) + 1)
     \<and> (\<forall>es. Accept (fw (run es (snd (Stop rt)))) = (Inr False, fw (run es (snd (Stop rt)))))"
proof (intro conjI allI impI)
  assume m: "mu (fw rt) = Some m"
  show "Accept (fw rt) =
       (if stop (fw rt) \<or> counter (fw rt) = Limit (fw rt) then (Inr False, fw rt)
        else (Inr True, (fw rt)\<lparr>counter := counter (fw rt) + 1\<rparr>))"
    using m by (simp add: Accept_def)
  show "unat (counter (snd (Accept (fw rt)))) = unat (counter (fw rt)) + 1"
    if "\<not> stop (fw rt) \<and> counter (fw rt) \<noteq> Limit (fw rt) \<and> counter (fw rt) \<le> Limit (fw rt)"
    using m that by (simp add: Accept_def word_inc_unat [where l = "Limit (fw rt)"])
  show "Accept (fw (run es (snd (Stop rt)))) = (Inr False, fw (run es (snd (Stop rt))))" for es
  proof -
    have "stop (fw (run es (snd (Stop rt))))"
      by (rule run_stop) (rule Stop_sets_stop)
    moreover have "\<exists>m'. mu (fw (run es (snd (Stop rt)))) = Some m'"
      by (rule run_mu [of _ m]) (simp add: Stop_mu m)
    ultimately show ?thesis
      by (auto simp: Accept_def)
  qed
qed

theorem Accept_started_witness:
  "mu (fw readme_limiter) = Some 0
   \<and> Accept (fw readme_limiter) = (Inr True, (fw readme_limiter)\<lparr>counter := 1\<rparr>)
   \<and> unat (counter (snd (Accept (fw readme_limiter)))) = 1
   \<and> Accept (fw (run [CallAccept, ResetFire 0] (snd (Stop readme_limiter)))) =
       (Inr False, fw (run [CallAccept, ResetFire 0] (snd (Stop readme_limiter))))"
proof -
  have m: "mu (fw readme_limiter) = Some 0"
    by (simp add: readme_limiter_eq)
  have s: "\<not> stop (fw readme_limiter)" "counter (fw readme_limiter) = 0"
    "Limit (fw readme_limiter) = 2"
    by (simp_all add: readme_limiter_eq)
  note started = Accept_started [OF m]
  have a: "Accept (fw readme_limiter) = (Inr True, (fw readme_limiter)\<lparr>counter := 1\<rparr>)"
    using started s by simp
  have b: "unat (counter (snd (Accept (fw readme_limiter)))) = 1"
    using started s by simp
  have c: "Accept (fw (run [CallAccept, ResetFire 0] (snd (Stop readme_limiter)))) =
       (Inr False, fw (run [CallAccept, ResetFire 0] (snd (Stop readme_limiter))))"
    using started by blast
  from m a b c show ?thesis
    by (intro conjI)
qed

text \<open>
  On a limiter on which \<^verbatim>\<open>Do\<close> was never called the mutex is nil: \<^verbatim>\<open>Accept\<close> panics, and
  it still panics after a call of \<^verbatim>\<open>Stop\<close>. It does not return false.
\<close>

theorem Accept_unstarted_counterexample:
  "Accept (fw (New 5 ''second'' 2)) = (Inl NilPointerDereference, fw (New 5 ''second'' 2))
   \<and> fst (Accept (fw (New 5 ''second'' 2))) \<noteq> Inr False
   \<and> fst (Accept (fw (snd (Stop (New 5 ''second'' 2))))) \<noteq> Inr False"
  by (simp add: Accept_def Stop_def New_def)

text \<open>
  C2. From the initial struct (counter 0), after any sequence of calls of \<^verbatim>\<open>Accept\<close>,
  \<^verbatim>\<open>Counter\<close>, \<^verbatim>\<open>Stop\<close> and \<^verbatim>\<open>Do\<close> and of steps of the resetter goroutines, the counter
  is at most the limit, which is the configured one; as a number it is not negative.
\<close>

theorem counter_within_limit:
  "counter (fw (run es (New d u l))) \<le> Limit (fw (run es (New d u l)))
   \<and> Limit (fw (run es (New d u l))) = l
   \<and> 0 \<le> unat (counter (fw (run es (New d u l))))
   \<and> unat (counter (fw (run es (New d u l)))) \<le> unat l"
proof -
  have init: "counter (fw (New d u l)) \<le> Limit (fw (New d u l))"
    by (simp add: New_def)
  have l: "Limit (fw (run es (New d u l))) = l"
    by (simp add: run_config) (simp add: New_def)
  have "counter (fw (run es (New d u l))) \<le> Limit (fw (New d u l))"
    using init by (rule run_counter_le)
  then have le: "counter (fw (run es (New d u l))) \<le> l"
    by (simp add: New_def)
  then have "unat (counter (fw (run es (New d u l)))) \<le> unat l"
    by (simp add: word_le_nat_alt)
  with l le show ?thesis
    by simp
qed

theorem counter_within_limit_witness:
  "unat (counter (fw (run [CallDo, CallAccept, CallAccept, CallAccept, ResetCheck 0,
                           ResetFire 0, CallAccept, CallStop, CallAccept]
                          (New 5 ''second'' 2)))) \<le> unat (2 :: uint64)"
  using counter_within_limit [of "[CallDo, CallAccept, CallAccept, CallAccept, ResetCheck 0,
    ResetFire 0, CallAccept, CallStop, CallAccept]" 5 "''second''" 2]
  by blast

subsection \<open>One window\<close>

lemma Accepts_from:
  assumes "mu f = Some m" and "\<not> stop f" and "counter f \<le> Limit f"
  shows "Accepts n f =
          (replicate (min n (unat (Limit f) - unat (counter f))) (Inr True)
             @ replicate (n - (unat (Limit f) - unat (counter f))) (Inr False),
           f\<lparr>counter := counter f + of_nat (min n (unat (Limit f) - unat (counter f)))\<rparr>)"
  using assms
proof (induction n arbitrary: f)
  case 0
  then show ?case by simp
next
  case (Suc n)
  show ?case
  proof (cases "counter f = Limit f")
    case True
    have "Accept f = (Inr False, f)"
      using Suc.prems True by (simp add: Accept_def)
    moreover have "Accepts n f = (replicate n (Inr False), f)"
      using Suc.IH [OF Suc.prems] True by simp
    ultimately show ?thesis
      using True by simp
  next
    case False
    let ?f' = "f\<lparr>counter := counter f + 1\<rparr>"
    have acc: "Accept f = (Inr True, ?f')"
      using Suc.prems False by (simp add: Accept_def)
    have le: "counter ?f' \<le> Limit ?f'"
      using Suc.prems False by (simp add: word_inc_le)
    have un: "unat (counter ?f') = Suc (unat (counter f))"
      using Suc.prems False by (simp add: word_inc_unat [where l = "Limit f"])
    have lt: "unat (counter f) < unat (Limit f)"
      using Suc.prems False by (simp add: word_less_nat_alt [symmetric])
    have ih: "Accepts n ?f' =
          (replicate (min n (unat (Limit ?f') - unat (counter ?f'))) (Inr True)
             @ replicate (n - (unat (Limit ?f') - unat (counter ?f'))) (Inr False),
           ?f'\<lparr>counter := counter ?f' + of_nat (min n (unat (Limit ?f') - unat (counter ?f')))\<rparr>)"
      using Suc.prems le by (intro Suc.IH) simp_all
    obtain k where k: "unat (Limit f) - unat (counter f) = Suc k"
      using lt by (metis Suc_diff_Suc)
    then have k': "unat (Limit f) - Suc (unat (counter f)) = k"
      by simp
    show ?thesis
      using acc ih un k k' by (simp add: add.assoc)
  qed
qed

text \<open>
  C6. On a started limiter (mutex set, not stopped) with counter 0, \<open>n\<close> calls of
  \<^verbatim>\<open>Accept\<close> in a row, no reset between them, return true \<open>min n limit\<close> times and then
  false: the number of true results is \<open>min n limit\<close>, at most the limit, and the value
  of \<^verbatim>\<open>Counter\<close> after the calls is the number of accepted calls. For the README's
  configuration (5, "second", 2), \<^verbatim>\<open>Do\<close> returns nil and five calls return true, true,
  false, false, false.
\<close>

theorem Accepts_window:
  "(mu f = Some m \<and> \<not> stop f \<and> counter f = 0 \<longrightarrow>
      fst (Accepts n f) =
        replicate (min n (unat (Limit f))) (Inr True)
          @ replicate (n - unat (Limit f)) (Inr False)
      \<and> length (filter (\<lambda>r. r = Inr True) (fst (Accepts n f))) = min n (unat (Limit f))
      \<and> length (filter (\<lambda>r. r = Inr True) (fst (Accepts n f))) \<le> unat (Limit f)
      \<and> unat (Counter (snd (Accepts n f))) =
          length (filter (\<lambda>r. r = Inr True) (fst (Accepts n f))))
   \<and> fst (Do (New 5 ''second'' 2)) = Inr None
   \<and> fst (Accepts 5 (fw (snd (Do (New 5 ''second'' 2))))) =
       [Inr True, Inr True, Inr False, Inr False, Inr False]"
proof (intro conjI impI)
  assume a: "mu f = Some m \<and> \<not> stop f \<and> counter f = 0"
  then have eq: "Accepts n f =
          (replicate (min n (unat (Limit f))) (Inr True)
             @ replicate (n - unat (Limit f)) (Inr False),
           f\<lparr>counter := of_nat (min n (unat (Limit f)))\<rparr>)"
    using Accepts_from [of f m n] by simp
  show res: "fst (Accepts n f) =
        replicate (min n (unat (Limit f))) (Inr True)
          @ replicate (n - unat (Limit f)) (Inr False)"
    by (simp add: eq)
  show cnt: "length (filter (\<lambda>r. r = Inr True) (fst (Accepts n f))) = min n (unat (Limit f))"
    by (simp add: res)
  show "length (filter (\<lambda>r. r = Inr True) (fst (Accepts n f))) \<le> unat (Limit f)"
    by (simp add: cnt)
  have "min n (unat (Limit f)) \<le> unat (Limit f)"
    by simp
  then have "unat (of_nat (min n (unat (Limit f))) :: uint64) = min n (unat (Limit f))"
    by (metis le_unat_uoi)
  then show "unat (Counter (snd (Accepts n f))) =
          length (filter (\<lambda>r. r = Inr True) (fst (Accepts n f)))"
    by (simp add: cnt) (simp add: eq Counter_def)
next
  show "fst (Do (New 5 ''second'' 2)) = Inr None"
    by (simp add: Do_readme)
  show "fst (Accepts 5 (fw (snd (Do (New 5 ''second'' 2))))) =
       [Inr True, Inr True, Inr False, Inr False, Inr False]"
    by (simp add: Do_readme eval_nat_numeral Accept_def)
qed

theorem Accepts_window_witness:
  "mu (fw readme_limiter) = Some 0 \<and> \<not> stop (fw readme_limiter)
   \<and> counter (fw readme_limiter) = 0
   \<and> fst (Accepts 7 (fw readme_limiter)) =
       [Inr True, Inr True, Inr False, Inr False, Inr False, Inr False, Inr False]
   \<and> unat (Counter (snd (Accepts 7 (fw readme_limiter)))) = 2"
proof -
  have s: "mu (fw readme_limiter) = Some 0 \<and> \<not> stop (fw readme_limiter)
      \<and> counter (fw readme_limiter) = 0"
    by (simp add: readme_limiter_eq)
  have l: "unat (Limit (fw readme_limiter)) = 2"
    by (simp add: readme_limiter_eq)
  note window = Accepts_window [of "fw readme_limiter" 0 7]
  have r: "fst (Accepts 7 (fw readme_limiter)) =
       [Inr True, Inr True, Inr False, Inr False, Inr False, Inr False, Inr False]"
    using window s by (simp add: l eval_nat_numeral)
  have "unat (Counter (snd (Accepts 7 (fw readme_limiter)))) =
      length (filter (\<lambda>r. r = Inr True) (fst (Accepts 7 (fw readme_limiter))))"
    using window s by blast
  then have c: "unat (Counter (snd (Accepts 7 (fw readme_limiter)))) = 2"
    by (simp add: r)
  from s r c show ?thesis
    by simp
qed

section \<open>Lifecycle\<close>

text \<open>
  C7, as the code has it. On a limiter whose ticker is set (\<^verbatim>\<open>Do\<close> has returned nil at
  least once), \<^verbatim>\<open>Stop\<close> returns normally: it sets the flag and turns the ticker off. A
  second \<^verbatim>\<open>Stop\<close> returns normally too and changes nothing.
\<close>

theorem Stop_started:
  "ticker (fw rt) = Some t \<Longrightarrow>
     Stop rt =
       (Inr (),
        rt\<lparr>fw := (fw rt)\<lparr>stop := True\<rparr>,
           tickers := (if t < length (tickers rt)
                       then (tickers rt)[t := (tickers rt ! t)\<lparr>stopped := True\<rparr>]
                       else tickers rt)\<rparr>)
     \<and> Stop (snd (Stop rt)) = (Inr (), snd (Stop rt))"
  by (simp add: Stop_def Let_def)

theorem Stop_started_witness:
  "ticker (fw readme_limiter) = Some 0
   \<and> fst (Stop readme_limiter) = Inr ()
   \<and> tickers (snd (Stop readme_limiter)) = [\<lparr>period = 5000000000, stopped = True\<rparr>]
   \<and> Stop (snd (Stop readme_limiter)) = (Inr (), snd (Stop readme_limiter))"
proof -
  have t: "ticker (fw readme_limiter) = Some 0"
    by (simp add: readme_limiter_eq)
  note stopped = Stop_started [OF t]
  have a: "fst (Stop readme_limiter) = Inr ()"
    using stopped by simp
  have b: "tickers (snd (Stop readme_limiter)) = [\<lparr>period = 5000000000, stopped = True\<rparr>]"
    using stopped by (simp add: readme_limiter_eq)
  have c: "Stop (snd (Stop readme_limiter)) = (Inr (), snd (Stop readme_limiter))"
    using stopped by blast
  from t a b c show ?thesis
    by (intro conjI)
qed

text \<open>
  On a limiter on which \<^verbatim>\<open>Do\<close> was never called the ticker is nil: \<^verbatim>\<open>Stop\<close> sets the flag
  and then panics in \<^verbatim>\<open>fw.ticker.Stop()\<close>.
\<close>

theorem Stop_uninitialized_counterexample:
  "Stop (New 5 ''second'' 2) =
     (Inl NilPointerDereference,
      (New 5 ''second'' 2)\<lparr>fw := (fw (New 5 ''second'' 2))\<lparr>stop := True\<rparr>\<rparr>)
   \<and> fst (Stop (New 5 ''second'' 2)) \<noteq> Inr ()"
  by (simp add: Stop_def New_def)

subsection \<open>Do\<close>

lemma Do_result_config:
  "Duration (fw rt') = Duration (fw rt) \<Longrightarrow> Unit (fw rt') = Unit (fw rt) \<Longrightarrow>
   Limit (fw rt') = Limit (fw rt) \<Longrightarrow> fst (Do rt') = fst (Do rt)"
  by (simp add: Do_def Validate_def duration_def NewTicker_def Let_def
           split: option.splits sum.splits prod.splits)

lemma duration_mu: "duration (f\<lparr>mu := x\<rparr>) = duration f"
  by (simp add: duration_def)

lemma duration_ticker: "duration (f\<lparr>ticker := x\<rparr>) = duration f"
  by (simp add: duration_def)

lemma Do_nil:
  "fst (Do rt) = Inr None \<Longrightarrow>
     \<exists>d. duration (fw rt) = Inr d \<and> 0 < sint d \<and>
       Do rt =
         (Inr None,
          rt\<lparr>fw := (fw rt)\<lparr>mu := Some (mutexes rt), ticker := Some (length (tickers rt))\<rparr>,
             tickers := tickers rt @ [\<lparr>period = d, stopped = False\<rparr>],
             mutexes := Suc (mutexes rt),
             resetters := resetters rt @ [LoopHead]\<rparr>)"
  by (auto simp: Do_def NewTicker_def Let_def duration_mu
           split: option.splits sum.splits prod.splits if_splits)

lemma exec_alloc:
  assumes "\<forall>a. mu (fw rt) = Some a \<longrightarrow> a < mutexes rt"
    and "\<forall>t. ticker (fw rt) = Some t \<longrightarrow> t < length (tickers rt)"
  shows "(\<forall>a. mu (fw (exec e rt)) = Some a \<longrightarrow> a < mutexes (exec e rt))
    \<and> (\<forall>t. ticker (fw (exec e rt)) = Some t \<longrightarrow> t < length (tickers (exec e rt)))"
proof (cases e)
  case CallAccept
  with assms show ?thesis
    by (simp add: Accept_def Let_def split: option.splits)
next
  case CallStop
  with assms show ?thesis
    by (simp add: Stop_def Let_def split: option.splits)
next
  case CallDo
  with assms show ?thesis
    by (auto simp: Do_def NewTicker_def Let_def
          split: option.splits sum.splits prod.splits if_splits)
next
  case (ResetCheck i)
  with assms show ?thesis
    by (simp add: reset_check_def split: option.splits)
next
  case (ResetFire i)
  with assms show ?thesis
    by (simp add: reset_fire_def)
qed (use assms in simp)

lemma run_alloc:
  "\<forall>a. mu (fw rt) = Some a \<longrightarrow> a < mutexes rt \<Longrightarrow>
   \<forall>t. ticker (fw rt) = Some t \<longrightarrow> t < length (tickers rt) \<Longrightarrow>
     (\<forall>a. mu (fw (run es rt)) = Some a \<longrightarrow> a < mutexes (run es rt))
     \<and> (\<forall>t. ticker (fw (run es rt)) = Some t \<longrightarrow> t < length (tickers (run es rt)))"
proof (induction es arbitrary: rt)
  case Nil
  then show ?case by simp
next
  case (Cons e es)
  from exec_alloc [OF Cons.prems] show ?case
    by (simp add: Cons.IH)
qed

lemma duration_config:
  "Duration f' = Duration f \<Longrightarrow> Unit f' = Unit f \<Longrightarrow> duration f' = duration f"
  by (simp add: duration_def)

text \<open>
  C10. When a call of \<^verbatim>\<open>Do\<close> has returned nil, every later call of \<^verbatim>\<open>Do\<close> returns nil
  again, whatever calls and resetter steps came between (none, for the second call made
  right away; the limiter may be running or stopped): the result of \<^verbatim>\<open>Do\<close> depends on the
  configuration only. Such a call stores a newly allocated mutex and a newly allocated
  ticker of the same period, different from the ones the struct held, and starts one more
  resetter goroutine.
\<close>

theorem Do_twice:
  "Do rt = (Inr None, rt') \<Longrightarrow>
     \<exists>d. duration (fw rt) = Inr d \<and>
       (\<forall>es. \<exists>rt''. Do (run es rt') = (Inr None, rt'')
          \<and> mu (fw rt'') = Some (mutexes (run es rt'))
          \<and> mu (fw rt'') \<noteq> mu (fw (run es rt'))
          \<and> ticker (fw rt'') = Some (length (tickers (run es rt')))
          \<and> ticker (fw rt'') \<noteq> ticker (fw (run es rt'))
          \<and> tickers rt'' = tickers (run es rt') @ [\<lparr>period = d, stopped = False\<rparr>]
          \<and> resetters rt'' = resetters (run es rt') @ [LoopHead])"
proof -
  assume d: "Do rt = (Inr None, rt')"
  then have nil: "fst (Do rt) = Inr None"
    by simp
  from Do_nil [OF nil] d obtain p where p: "duration (fw rt) = Inr p"
    and rt': "rt' = rt\<lparr>fw := (fw rt)\<lparr>mu := Some (mutexes rt),
                                       ticker := Some (length (tickers rt))\<rparr>,
           tickers := tickers rt @ [\<lparr>period = p, stopped = False\<rparr>],
           mutexes := Suc (mutexes rt),
           resetters := resetters rt @ [LoopHead]\<rparr>"
    by auto
  have later: "\<exists>rt''. Do (run es rt') = (Inr None, rt'')
          \<and> mu (fw rt'') = Some (mutexes (run es rt'))
          \<and> mu (fw rt'') \<noteq> mu (fw (run es rt'))
          \<and> ticker (fw rt'') = Some (length (tickers (run es rt')))
          \<and> ticker (fw rt'') \<noteq> ticker (fw (run es rt'))
          \<and> tickers rt'' = tickers (run es rt') @ [\<lparr>period = p, stopped = False\<rparr>]
          \<and> resetters rt'' = resetters (run es rt') @ [LoopHead]" for es
  proof -
    let ?r = "run es rt'"
    have cfg: "Duration (fw ?r) = Duration (fw rt)" "Unit (fw ?r) = Unit (fw rt)"
      "Limit (fw ?r) = Limit (fw rt)"
      by (simp_all add: run_config) (simp_all add: rt')
    have "fst (Do ?r) = fst (Do rt)"
      using cfg by (rule Do_result_config)
    then have nil': "fst (Do ?r) = Inr None"
      by (simp add: nil)
    have dur: "duration (fw ?r) = Inr p"
      using duration_config [OF cfg(1,2)] p by simp
    have "(\<forall>a. mu (fw ?r) = Some a \<longrightarrow> a < mutexes ?r)
        \<and> (\<forall>t. ticker (fw ?r) = Some t \<longrightarrow> t < length (tickers ?r))"
      by (rule run_alloc) (simp_all add: rt')
    then have fresh: "mu (fw ?r) \<noteq> Some (mutexes ?r)"
      "ticker (fw ?r) \<noteq> Some (length (tickers ?r))"
      by auto
    from Do_nil [OF nil'] dur
    have "Do ?r =
         (Inr None,
          ?r\<lparr>fw := (fw ?r)\<lparr>mu := Some (mutexes ?r), ticker := Some (length (tickers ?r))\<rparr>,
             tickers := tickers ?r @ [\<lparr>period = p, stopped = False\<rparr>],
             mutexes := Suc (mutexes ?r),
             resetters := resetters ?r @ [LoopHead]\<rparr>)"
      by auto
    with fresh show ?thesis
      by auto
  qed
  with p show ?thesis
    by blast
qed

theorem Do_twice_witness:
  "Do (New 5 ''second'' 2) = (Inr None, readme_limiter)
   \<and> (\<exists>rt''. Do readme_limiter = (Inr None, rt'')
        \<and> mu (fw rt'') = Some 1 \<and> ticker (fw rt'') = Some 1
        \<and> tickers rt'' = [\<lparr>period = 5000000000, stopped = False\<rparr>,
                           \<lparr>period = 5000000000, stopped = False\<rparr>]
        \<and> resetters rt'' = [LoopHead, LoopHead])"
proof -
  have d: "Do (New 5 ''second'' 2) = (Inr None, readme_limiter)"
    by (simp add: readme_limiter_eq Do_readme)
  have p: "duration (fw (New 5 ''second'' 2)) = Inr 5000000000"
    by (simp add: duration_def New_def Second_def)
  from Do_twice [OF d] p
  have "\<forall>es. \<exists>rt''. Do (run es readme_limiter) = (Inr None, rt'')
          \<and> mu (fw rt'') = Some (mutexes (run es readme_limiter))
          \<and> mu (fw rt'') \<noteq> mu (fw (run es readme_limiter))
          \<and> ticker (fw rt'') = Some (length (tickers (run es readme_limiter)))
          \<and> ticker (fw rt'') \<noteq> ticker (fw (run es readme_limiter))
          \<and> tickers rt'' = tickers (run es readme_limiter)
               @ [\<lparr>period = 5000000000, stopped = False\<rparr>]
          \<and> resetters rt'' = resetters (run es readme_limiter) @ [LoopHead]"
    by simp
  then obtain rt'' where "Do (run [] readme_limiter) = (Inr None, rt'')"
    and "mu (fw rt'') = Some (mutexes (run [] readme_limiter))"
    and "ticker (fw rt'') = Some (length (tickers (run [] readme_limiter)))"
    and "tickers rt'' = tickers (run [] readme_limiter)
               @ [\<lparr>period = 5000000000, stopped = False\<rparr>]"
    and "resetters rt'' = resetters (run [] readme_limiter) @ [LoopHead]"
    by blast
  then have "Do readme_limiter = (Inr None, rt'')
        \<and> mu (fw rt'') = Some 1 \<and> ticker (fw rt'') = Some 1
        \<and> tickers rt'' = [\<lparr>period = 5000000000, stopped = False\<rparr>,
                           \<lparr>period = 5000000000, stopped = False\<rparr>]
        \<and> resetters rt'' = [LoopHead, LoopHead]"
    by (simp add: readme_limiter_eq)
  then have b: "\<exists>rt''. Do readme_limiter = (Inr None, rt'')
        \<and> mu (fw rt'') = Some 1 \<and> ticker (fw rt'') = Some 1
        \<and> tickers rt'' = [\<lparr>period = 5000000000, stopped = False\<rparr>,
                           \<lparr>period = 5000000000, stopped = False\<rparr>]
        \<and> resetters rt'' = [LoopHead, LoopHead]"
    by (rule exI)
  from d b show ?thesis
    by (intro conjI)
qed

section \<open>The window\<close>

lemma sint_of_nat_in_range:
  assumes "n < 2 ^ 63"
  shows "sint (of_nat n :: 64 word) = int n"
proof -
  have "sint (of_nat n :: 64 word) = signed_take_bit 63 (int n)"
    using sint_sbintrunc' [where 'a = 64 and bin = "int n"] by simp
  moreover have "int n < 2 ^ 63"
    using assms by (metis of_nat_less_iff of_nat_numeral of_nat_power)
  then have "signed_take_bit 63 (int n) = int n"
    by (intro signed_take_bit_int_eq_self) simp_all
  ultimately show ?thesis
    by simp
qed

lemma sint_mult_in_range:
  fixes a :: "64 word"
  assumes "unat a * k < 2 ^ 63"
  shows "sint (a * of_nat k) = int (unat a) * int k"
proof -
  have "a * of_nat k = (of_nat (unat a * k) :: 64 word)"
    by simp
  moreover have "sint (of_nat (unat a * k) :: 64 word) = int (unat a * k)"
    using assms by (rule sint_of_nat_in_range)
  ultimately show ?thesis
    by simp
qed

text \<open>
  While the product fits an \<^verbatim>\<open>int64\<close>, \<^verbatim>\<open>duration\<close> is the configured duration in
  nanoseconds: times \<open>10\<^sup>9\<close> for "second", \<open>6 \<times> 10\<^sup>1\<^sup>0\<close> for "minute" and
  \<open>3.6 \<times> 10\<^sup>1\<^sup>2\<close> for "hour".
\<close>

lemma duration_in_range:
  "Unit f = ''second'' \<Longrightarrow> unat (Duration f) * 1000000000 < 2 ^ 63 \<Longrightarrow>
     \<exists>d. duration f = Inr d \<and> sint d = int (unat (Duration f)) * 1000000000"
  "Unit f = ''minute'' \<Longrightarrow> unat (Duration f) * 60000000000 < 2 ^ 63 \<Longrightarrow>
     \<exists>d. duration f = Inr d \<and> sint d = int (unat (Duration f)) * 60000000000"
  "Unit f = ''hour'' \<Longrightarrow> unat (Duration f) * 3600000000000 < 2 ^ 63 \<Longrightarrow>
     \<exists>d. duration f = Inr d \<and> sint d = int (unat (Duration f)) * 3600000000000"
  using sint_mult_in_range [of "Duration f" 1000000000]
    sint_mult_in_range [of "Duration f" 60000000000]
    sint_mult_in_range [of "Duration f" 3600000000000]
  by (simp_all add: duration_def Second_def Minute_def Hour_def)

text \<open>
  A firing sets the counter to 0; on a started limiter with a limit other than 0 the next
  \<^verbatim>\<open>Accept\<close> returns true, and \<^verbatim>\<open>Counter\<close> reads 0 before it and 1 after it.
\<close>

lemma reset_fire_then_Accept:
  assumes "i < length (resetters rt)" and "receiving (resetters rt ! i)"
    and "mu (fw rt) = Some m" and "\<not> stop (fw rt)" and "Limit (fw rt) \<noteq> 0"
  shows "Counter (fw (reset_fire i rt)) = 0"
    and "fst (Accept (fw (reset_fire i rt))) = Inr True"
    and "Counter (snd (Accept (fw (reset_fire i rt)))) = 1"
  using assms by (simp_all add: reset_fire_def Counter_def Accept_def)

text \<open>
  C5, where the code departs from it. \<^verbatim>\<open>Validate\<close> accepts every duration other than 0,
  and \<^verbatim>\<open>duration\<close> multiplies in \<^verbatim>\<open>int64\<close>. For 18446744074 seconds the product wraps
  to 290448384 nanoseconds, and this is the period of the ticker that \<^verbatim>\<open>Do\<close> starts: not
  18446744074 times one second. For 9223372037 seconds the product wraps to a negative
  duration and \<^verbatim>\<open>Do\<close> panics in \<^verbatim>\<open>time.NewTicker\<close>, after it has stored the mutex.
\<close>

theorem duration_wraps:
  "Validate (fw (New 18446744074 ''second'' 1)) = None
   \<and> duration (fw (New 18446744074 ''second'' 1)) = Inr 290448384
   \<and> Do (New 18446744074 ''second'' 1) =
       (Inr None,
        \<lparr>fw = \<lparr>Duration = 18446744074, Unit = ''second'', Limit = 1, counter = 0,
                ticker = Some 0, stop = False, mu = Some 0\<rparr>,
         tickers = [\<lparr>period = 290448384, stopped = False\<rparr>], mutexes = 1,
         resetters = [LoopHead]\<rparr>)
   \<and> sint (290448384 :: time_Duration) \<noteq> 18446744074 * 1000000000
   \<and> Validate (fw (New 9223372037 ''second'' 1)) = None
   \<and> Do (New 9223372037 ''second'' 1) =
       (Inl NonPositiveInterval,
        \<lparr>fw = \<lparr>Duration = 9223372037, Unit = ''second'', Limit = 1, counter = 0,
                ticker = None, stop = False, mu = Some 0\<rparr>,
         tickers = [], mutexes = 1, resetters = []\<rparr>)"
  by (simp add: Do_def New_def Validate_def duration_def NewTicker_def Second_def)

section \<open>Concurrent callers\<close>

subsection \<open>A thread alone does what the method does\<close>

lemma threads_alone:
  "mu f = None \<Longrightarrow> sched [0] (spawn f [AcLock]) = Some (spawn f [Panicked])"
  "mu f = Some m \<Longrightarrow> stop f \<or> counter f = Limit f \<Longrightarrow>
     sched [0, 0, 0] (spawn f [AcLock]) = Some (spawn (snd (Accept f)) [AcDone False])
     \<and> fst (Accept f) = Inr False"
  "mu f = Some m \<Longrightarrow> \<not> stop f \<Longrightarrow> counter f \<noteq> Limit f \<Longrightarrow>
     sched [0, 0, 0, 0, 0] (spawn f [AcLock]) = Some (spawn (snd (Accept f)) [AcDone True])
     \<and> fst (Accept f) = Inr True"
  "sched [0] (spawn f [CtRead]) = Some (spawn f [CtDone (Counter f)])"
  "ticker (fw rt) = Some t \<Longrightarrow>
     sched [0, 0] (spawn (fw rt) [StFlag]) = Some (spawn (fw (snd (Stop rt))) [StDone])"
  "ticker (fw rt) = None \<Longrightarrow>
     sched [0, 0] (spawn (fw rt) [StFlag]) = Some (spawn (fw (snd (Stop rt))) [Panicked])"
  "resetters rt = [LoopHead] \<Longrightarrow> ticker (fw rt) = Some t \<Longrightarrow> \<not> stop (fw rt) \<Longrightarrow>
     sched [0, 0, 0] (spawn (fw rt) [RsTest]) =
       Some (spawn (fw (reset_fire 0 (reset_check 0 rt))) [RsTest])"
  "resetters rt = [LoopHead] \<Longrightarrow> stop (fw rt) \<Longrightarrow>
     sched [0] (spawn (fw rt) [RsTest]) = Some (spawn (fw (reset_check 0 rt)) [RsDone])"
  by (auto simp: cstep_def spawn_def Accept_def Counter_def Stop_def Let_def
        reset_check_def reset_fire_def receiving_def)

subsection \<open>Callers of Accept only\<close>

lemma sum_list_credit_update:
  assumes "i < length ts"
  shows "sum_list (map credit (ts[i := t])) + credit (ts ! i) = sum_list (map credit ts) + credit t"
proof -
  have "sum_list ((map credit ts)[i := credit t]) =
      sum_list (map credit ts) + credit t - map credit ts ! i"
    using assms by (simp add: sum_list_update)
  moreover have "map credit ts ! i \<le> sum_list (map credit ts)"
    using assms by (simp add: member_le_sum_list)
  ultimately show ?thesis
    using assms by (simp add: map_update)
qed

lemma cstep_accept_inv:
  assumes inv: "accept_inv c" and step: "cstep i c = Some c'"
  shows "accept_inv c' \<and> Limit (mem c') = Limit (mem c)"
proof -
  from step have i: "i < length (threads c)"
    by (simp add: cstep_def split: if_splits)
  let ?t = "threads c ! i"
  from inv i have acc: "accepting ?t" and fit: "fits (mem c) ?t"
    and cs: "in_cs ?t \<longleftrightarrow> holder c = Some i"
    by (simp_all add: accept_inv_def)
  from inv obtain m where m: "mu (mem c) = Some m"
    by (auto simp: accept_inv_def)
  from inv have ns: "\<not> stop (mem c)" and le: "counter (mem c) \<le> Limit (mem c)"
    and sum: "unat (counter (mem c)) = sum_list (map credit (threads c))"
    and others: "\<And>j. j < length (threads c) \<Longrightarrow>
        accepting (threads c ! j) \<and> fits (mem c) (threads c ! j)
        \<and> (in_cs (threads c ! j) \<longleftrightarrow> holder c = Some j)"
    by (simp_all add: accept_inv_def)
  show ?thesis
  proof (cases ?t)
    case AcLock
    with step i m have free: "holder c = None"
      and c': "c' = \<lparr>mem = mem c, holder = Some i, threads = (threads c)[i := AcTest]\<rparr>"
      by (auto simp: cstep_def split: if_splits)
    have "sum_list (map credit ((threads c)[i := AcTest])) = sum_list (map credit (threads c))"
      using sum_list_credit_update [OF i, of AcTest] AcLock by simp
    then show ?thesis
      using m ns le sum others free i
      by (auto simp: accept_inv_def c' nth_list_update)
  next
    case AcTest
    with step i ns have
      c': "c' = \<lparr>mem = mem c, holder = holder c,
                 threads = (threads c)[i := (if counter (mem c) \<noteq> Limit (mem c) then AcLoad
                                             else AcUnlock False)]\<rparr>"
      by (auto simp: cstep_def)
    have "sum_list (map credit ((threads c)[i := (if counter (mem c) \<noteq> Limit (mem c) then AcLoad
                                             else AcUnlock False)])) =
        sum_list (map credit (threads c))"
      using sum_list_credit_update [OF i, of "if counter (mem c) \<noteq> Limit (mem c) then AcLoad
                                             else AcUnlock False"] AcTest
      by (simp split: if_splits)
    then show ?thesis
      using m ns le sum others cs i AcTest
      by (auto simp: accept_inv_def c' nth_list_update)
  next
    case AcLoad
    with step i have
      c': "c' = \<lparr>mem = mem c, holder = holder c,
                 threads = (threads c)[i := AcStore (counter (mem c))]\<rparr>"
      by (auto simp: cstep_def)
    have "sum_list (map credit ((threads c)[i := AcStore (counter (mem c))])) =
        sum_list (map credit (threads c))"
      using sum_list_credit_update [OF i, of "AcStore (counter (mem c))"] AcLoad by simp
    then show ?thesis
      using m ns le sum others cs fit i AcLoad
      by (auto simp: accept_inv_def c' nth_list_update)
  next
    case (AcStore v)
    with fit have v: "v = counter (mem c)" and ne: "counter (mem c) \<noteq> Limit (mem c)"
      by simp_all
    from AcStore step i have
      c': "c' = \<lparr>mem = (mem c)\<lparr>counter := v + 1\<rparr>, holder = holder c,
                 threads = (threads c)[i := AcUnlock True]\<rparr>"
      by (auto simp: cstep_def)
    from cs AcStore have h: "holder c = Some i"
      by simp
    have le': "counter (mem c) + 1 \<le> Limit (mem c)"
      using le ne by (rule word_inc_le)
    have "sum_list (map credit ((threads c)[i := AcUnlock True])) =
        Suc (sum_list (map credit (threads c)))"
      using sum_list_credit_update [OF i, of "AcUnlock True"] AcStore by simp
    then have sum': "unat (counter (mem c) + 1) =
        sum_list (map credit ((threads c)[i := AcUnlock True]))"
      using sum word_inc_unat [OF le ne] by simp
    have rest: "accepting (threads c ! j) \<and> fits ((mem c)\<lparr>counter := v + 1\<rparr>) (threads c ! j)
        \<and> \<not> in_cs (threads c ! j)"
      if "j < length (threads c)" and "j \<noteq> i" for j
    proof -
      from others [OF that(1)] h that(2)
      have a: "accepting (threads c ! j)" and f: "fits (mem c) (threads c ! j)"
        and n: "\<not> in_cs (threads c ! j)"
        by simp_all
      from a n f ne have "fits ((mem c)\<lparr>counter := v + 1\<rparr>) (threads c ! j)"
        by (cases "threads c ! j") auto
      with a n show ?thesis
        by simp
    qed
    show ?thesis
      using m ns le' sum' rest h i v
      by (auto simp: accept_inv_def c' nth_list_update)
  next
    case (AcUnlock b)
    with step i have
      c': "c' = \<lparr>mem = mem c, holder = None, threads = (threads c)[i := AcDone b]\<rparr>"
      by (auto simp: cstep_def)
    from cs AcUnlock have h: "holder c = Some i"
      by simp
    have "sum_list (map credit ((threads c)[i := AcDone b])) =
        sum_list (map credit (threads c))"
      using sum_list_credit_update [OF i, of "AcDone b"] AcUnlock by simp
    then show ?thesis
      using m ns le sum others h fit i AcUnlock
      by (auto simp: accept_inv_def c' nth_list_update)
  next
    case (AcDone b)
    with step i show ?thesis
      by (simp add: cstep_def)
  qed (use acc in simp_all)
qed

lemma sched_accept_inv:
  "accept_inv c \<Longrightarrow> sched is c = Some c' \<Longrightarrow>
     accept_inv c' \<and> Limit (mem c') = Limit (mem c) \<and> length (threads c') = length (threads c)"
proof (induction "is" arbitrary: c)
  case Nil
  then show ?case by simp
next
  case (Cons i "is")
  from Cons.prems(2) obtain c1 where c1: "cstep i c = Some c1" and rest: "sched is c1 = Some c'"
    by (auto split: option.splits)
  from cstep_accept_inv [OF Cons.prems(1) c1]
  have inv1: "accept_inv c1" and l1: "Limit (mem c1) = Limit (mem c)"
    by simp_all
  have n1: "length (threads c1) = length (threads c)"
    using c1 by (auto simp: cstep_def split: if_splits option.splits)
  from Cons.IH [OF inv1 rest] l1 n1 show ?case
    by simp
qed

lemma spawn_accept_inv:
  "mu f = Some m \<Longrightarrow> \<not> stop f \<Longrightarrow> counter f = 0 \<Longrightarrow>
     accept_inv (spawn f (replicate n AcLock))"
  by (simp add: accept_inv_def spawn_def)

lemma all_done_credit:
  "\<forall>t \<in> set ts. \<exists>b. t = AcDone b \<Longrightarrow>
     sum_list (map credit ts) = length (filter (\<lambda>t. t = AcDone True) ts)
     \<and> length (filter (\<lambda>t. t = AcDone True) ts) + length (filter (\<lambda>t. t = AcDone False) ts)
         = length ts"
  by (induction ts) auto

text \<open>
  \<open>n\<close> concurrent calls of \<^verbatim>\<open>Accept\<close> on a started limiter with counter 0, and no other
  thread: in every state of every schedule the counter is within the limit, and when all
  calls have returned, \<open>min n limit\<close> of them have returned true and the others false.
\<close>

lemma concurrent_Accepts:
  assumes f: "mu f = Some m" "\<not> stop f" "counter f = 0"
    and s: "sched is (spawn f (replicate n AcLock)) = Some c"
  shows "counter (mem c) \<le> Limit f
    \<and> ((\<forall>t \<in> set (threads c). \<exists>b. t = AcDone b) \<longrightarrow>
           length (filter (\<lambda>t. t = AcDone True) (threads c)) = min n (unat (Limit f))
           \<and> length (filter (\<lambda>t. t = AcDone False) (threads c)) = n - unat (Limit f))"
proof (intro conjI impI)
  from sched_accept_inv [OF spawn_accept_inv [OF f] s]
  have inv: "accept_inv c" and l: "Limit (mem c) = Limit f" and n: "length (threads c) = n"
    by (simp_all add: spawn_def)
  from inv l show le: "counter (mem c) \<le> Limit f"
    by (simp add: accept_inv_def)
  assume fin: "\<forall>t \<in> set (threads c). \<exists>b. t = AcDone b"
  let ?T = "length (filter (\<lambda>t. t = AcDone True) (threads c))"
  let ?F = "length (filter (\<lambda>t. t = AcDone False) (threads c))"
  from all_done_credit [OF fin] inv n
  have T: "unat (counter (mem c)) = ?T" and TF: "?T + ?F = n"
    by (simp_all add: accept_inv_def)
  from le have Tle: "?T \<le> unat (Limit f)"
    using T by (simp add: word_le_nat_alt)
  have "?T = min n (unat (Limit f)) \<and> ?F = n - unat (Limit f)"
  proof (cases "?F = 0")
    case True
    with TF Tle show ?thesis
      by simp
  next
    case False
    then obtain t where "t \<in> set (threads c)" and "t = AcDone False"
      by (metis (mono_tags, lifting) filter_False length_0_conv)
    then obtain j where "j < length (threads c)" and "threads c ! j = AcDone False"
      by (auto simp: in_set_conv_nth)
    with inv have "counter (mem c) = Limit (mem c)"
      by (auto simp: accept_inv_def)
    with T l have "?T = unat (Limit f)"
      by simp
    with TF show ?thesis
      by simp
  qed
  then show "?T = min n (unat (Limit f))" and "?F = n - unat (Limit f)"
    by simp_all
qed

lemma concurrent_Accepts_example:
  "sched [0, 1] (spawn (fw readme_limiter) (replicate 3 AcLock)) = None
   \<and> sched [1, 1, 1, 1, 1, 0, 0, 0, 0, 0, 2, 2, 2]
       (spawn (fw readme_limiter) (replicate 3 AcLock)) =
     Some (spawn ((fw readme_limiter)\<lparr>counter := 2\<rparr>) [AcDone True, AcDone True, AcDone False])"
  by (simp add: cstep_def spawn_def readme_limiter_eq eval_nat_numeral)

subsection \<open>All threads\<close>

lemma bounded_stop: "bounded (f\<lparr>stop := b\<rparr>) t = bounded f t"
  by (cases t) simp_all

lemma cstep_race_inv:
  assumes inv: "race_inv c" and step: "cstep i c = Some c'"
  shows "race_inv c' \<and> Limit (mem c') = Limit (mem c)"
proof -
  from step have i: "i < length (threads c)"
    by (simp add: cstep_def split: if_splits)
  let ?t = "threads c ! i"
  from inv have le: "counter (mem c) \<le> Limit (mem c)"
    and others: "\<And>j. j < length (threads c) \<Longrightarrow>
        bounded (mem c) (threads c ! j) \<and> (in_cs (threads c ! j) \<longleftrightarrow> holder c = Some j)"
    by (simp_all add: race_inv_def)
  from others [OF i] have bd: "bounded (mem c) ?t" and cs: "in_cs ?t \<longleftrightarrow> holder c = Some i"
    by simp_all
  show ?thesis
  proof (cases ?t)
    case AcLock
    with step i le others cs show ?thesis
      by (auto simp: cstep_def race_inv_def nth_list_update split: option.splits if_splits)
  next
    case AcTest
    with step i le others cs show ?thesis
      by (auto simp: cstep_def race_inv_def nth_list_update split: option.splits if_splits)
  next
    case AcLoad
    with step i le others cs bd show ?thesis
      by (auto simp: cstep_def race_inv_def nth_list_update split: option.splits if_splits)
  next
    case (AcStore v)
    with bd have v: "v < Limit (mem c)"
      by simp
    then have v1: "v + 1 \<le> Limit (mem c)"
      by (rule inc_le)
    from AcStore cs have h: "holder c = Some i"
      by simp
    have rest: "bounded ((mem c)\<lparr>counter := v + 1\<rparr>) (threads c ! j) \<and> \<not> in_cs (threads c ! j)"
      if "j < length (threads c)" and "j \<noteq> i" for j
    proof -
      from others [OF that(1)] h that(2) have n: "\<not> in_cs (threads c ! j)"
        by simp
      then have "bounded ((mem c)\<lparr>counter := v + 1\<rparr>) (threads c ! j)"
        by (cases "threads c ! j") simp_all
      with n show ?thesis
        by simp
    qed
    from AcStore step i have
      c': "c' = \<lparr>mem = (mem c)\<lparr>counter := v + 1\<rparr>, holder = holder c,
                 threads = (threads c)[i := AcUnlock True]\<rparr>"
      by (auto simp: cstep_def)
    show ?thesis
      using v1 rest h i by (auto simp: race_inv_def c' nth_list_update)
  next
    case (AcUnlock b)
    with step i le others cs show ?thesis
      by (auto simp: cstep_def race_inv_def nth_list_update split: option.splits if_splits)
  next
    case (AcDone b)
    with step i show ?thesis
      by (simp add: cstep_def)
  next
    case CtRead
    with step i le others cs show ?thesis
      by (auto simp: cstep_def race_inv_def nth_list_update split: option.splits if_splits)
  next
    case (CtDone v)
    with step i show ?thesis
      by (simp add: cstep_def)
  next
    case StFlag
    with step i le others cs show ?thesis
      by (auto simp: cstep_def race_inv_def nth_list_update bounded_stop
               split: option.splits if_splits)
  next
    case StTicker
    with step i le others cs show ?thesis
      by (auto simp: cstep_def race_inv_def nth_list_update split: option.splits if_splits)
  next
    case StDone
    with step i show ?thesis
      by (simp add: cstep_def)
  next
    case RsTest
    with step i le others cs show ?thesis
      by (auto simp: cstep_def race_inv_def nth_list_update split: option.splits if_splits)
  next
    case RsRecv
    with step i le others cs show ?thesis
      by (auto simp: cstep_def race_inv_def nth_list_update split: option.splits if_splits)
  next
    case RsZero
    from RsZero step i have
      c': "c' = \<lparr>mem = (mem c)\<lparr>counter := 0\<rparr>, holder = holder c,
                 threads = (threads c)[i := RsTest]\<rparr>"
      by (auto simp: cstep_def)
    have rest: "bounded ((mem c)\<lparr>counter := 0\<rparr>) (threads c ! j)"
      if "j < length (threads c)" for j
    proof -
      from others [OF that] have b: "bounded (mem c) (threads c ! j)"
        by simp
      show ?thesis
      proof (cases "threads c ! j")
        case AcLoad
        with b have "counter (mem c) < Limit (mem c)"
          by simp
        with word_zero_le [of "counter (mem c)"] have "0 < Limit (mem c)"
          by (rule le_less_trans)
        with AcLoad show ?thesis
          by simp
      qed (use b in simp_all)
    qed
    from RsZero cs have "holder c \<noteq> Some i"
      by simp
    then show ?thesis
      using rest others i by (auto simp: race_inv_def c' nth_list_update)
  next
    case RsDone
    with step i show ?thesis
      by (simp add: cstep_def)
  next
    case Panicked
    with step i show ?thesis
      by (simp add: cstep_def)
  qed
qed

lemma sched_race_inv:
  "race_inv c \<Longrightarrow> sched is c = Some c' \<Longrightarrow> race_inv c' \<and> Limit (mem c') = Limit (mem c)"
proof (induction "is" arbitrary: c)
  case Nil
  then show ?case by simp
next
  case (Cons i "is")
  from Cons.prems(2) obtain c1 where c1: "cstep i c = Some c1" and rest: "sched is c1 = Some c'"
    by (auto split: option.splits)
  from cstep_race_inv [OF Cons.prems(1) c1] Cons.IH [OF _ rest] show ?case
    by simp
qed

text \<open>
  Callers of \<^verbatim>\<open>Accept\<close>, \<^verbatim>\<open>Counter\<close> and \<^verbatim>\<open>Stop\<close> and resetter goroutines, interleaved at
  every access: the counter stays within the limit in every state of every schedule.
\<close>

lemma interleaved_counter_within_limit:
  assumes "counter f \<le> Limit f" and "\<forall>t \<in> set ts. entry t"
    and "sched is (spawn f ts) = Some c"
  shows "counter (mem c) \<le> Limit f"
proof -
  have "bounded f t \<and> \<not> in_cs t" if "entry t" for t
    using that by (cases t) simp_all
  with assms(1,2) have "race_inv (spawn f ts)"
    by (simp add: race_inv_def spawn_def)
  from sched_race_inv [OF this assms(3)]
  have inv: "race_inv c" and l: "Limit (mem c) = Limit f"
    by (simp_all add: spawn_def)
  from inv have "counter (mem c) \<le> Limit (mem c)"
    by (simp add: race_inv_def)
  with l show ?thesis
    by simp
qed

subsection \<open>The resetter against Accept\<close>

text \<open>
  C9, where the code departs from it. Only \<^verbatim>\<open>Accept\<close> takes the mutex. On the README's
  limiter, with two callers of \<^verbatim>\<open>Accept\<close> (threads 0 and 1) and the resetter (thread 2):
  the first call returns true (counter 1); the second caller takes the mutex, decides to
  accept and reads the counter, 1; the resetter tests the flag, receives a tick and is
  about to write. Its write \<^verbatim>\<open>fw.counter = 0\<close> then happens while caller 1 holds the mutex,
  and caller 1 writes 2 over it: both calls have returned true and the counter is 2
  although the reset began after the first call had returned. Run one after the other in
  either order, the second call and the reset leave the counter at 1 or at 0. In the same
  way \<^verbatim>\<open>Counter\<close> reads the counter and \<^verbatim>\<open>Stop\<close> writes the flag while a caller of
  \<^verbatim>\<open>Accept\<close> holds the mutex.
\<close>

theorem reset_inside_critical_section:
  "sched [0, 0, 0, 0, 0, 1, 1, 1, 2, 2] (spawn (fw readme_limiter) [AcLock, AcLock, RsTest]) =
     Some \<lparr>mem = (fw readme_limiter)\<lparr>counter := 1\<rparr>, holder = Some 1,
           threads = [AcDone True, AcStore 1, RsZero]\<rparr>
   \<and> cstep 2 \<lparr>mem = (fw readme_limiter)\<lparr>counter := 1\<rparr>, holder = Some 1,
              threads = [AcDone True, AcStore 1, RsZero]\<rparr> =
     Some \<lparr>mem = (fw readme_limiter)\<lparr>counter := 0\<rparr>, holder = Some 1,
           threads = [AcDone True, AcStore 1, RsTest]\<rparr>
   \<and> sched [0, 0, 0, 0, 0, 1, 1, 1, 2, 2, 2, 1, 1]
       (spawn (fw readme_limiter) [AcLock, AcLock, RsTest]) =
     Some \<lparr>mem = (fw readme_limiter)\<lparr>counter := 2\<rparr>, holder = None,
           threads = [AcDone True, AcDone True, RsTest]\<rparr>
   \<and> counter (fw (run [CallAccept, ResetCheck 0, ResetFire 0, CallAccept] readme_limiter)) = 1
   \<and> counter (fw (run [CallAccept, CallAccept, ResetCheck 0, ResetFire 0] readme_limiter)) = 0
   \<and> sched [0, 1, 2] (spawn (fw readme_limiter) [AcLock, CtRead, StFlag]) =
     Some \<lparr>mem = (fw readme_limiter)\<lparr>stop := True\<rparr>, holder = Some 0,
           threads = [AcTest, CtDone 0, StTicker]\<rparr>"
  by (simp add: cstep_def spawn_def readme_limiter_eq Accept_def reset_check_def
        reset_fire_def receiving_def)

end
